theory Spec2Isabelle
  imports Main
begin

section \<open>Strings, values and errors\<close>

text \<open>
  A Python \<open>str\<close> is a sequence of Unicode code points, and \<open>len\<close> counts code points.
  It is modelled as a list of code point numbers; \<open>str\<close> embeds an ASCII literal.
\<close>

type_synonym pystr = "nat list"

definition str :: "string \<Rightarrow> pystr" where
  "str s = map of_char s"

text \<open>The values a caller can pass where the source annotates \<open>value: str\<close>.\<close>

datatype pyval = PyStr pystr | PyInt int | PyNone

text \<open>
  The exceptions of the source. The payload of a \<open>ValueError\<close> tells the raising
  places apart (the source's messages are Ukrainian sentences).
\<close>

datatype verr =
    PhoneNotStr
  | PhoneNotTenDigits
  | BadBirthday
  | YearOutOfRange
  | MonthOutOfRange
  | DayOutOfRange
  | NoMatch
  | UnconvertedData

datatype error = ValueError verr | KeyError pystr | OverflowError

subsection \<open>Character classes\<close>

definition ascii_digit :: "nat \<Rightarrow> bool" where
  "ascii_digit c = (48 \<le> c \<and> c \<le> 57)"

text \<open>
  The value of a character of Unicode category Nd (decimal digit), which is what the
  regular expression class \<open>\d\<close> matches and what \<open>int\<close> converts. The table lists
  five blocks of the Unicode database: ASCII, Arabic-Indic, Extended Arabic-Indic,
  Devanagari and fullwidth digits. The database has further blocks of the same kind;
  below 128 the table is complete.
\<close>

definition decimal_value :: "nat \<Rightarrow> nat option" where
  "decimal_value c =
     (if 48 \<le> c \<and> c \<le> 57 then Some (c - 48)
      else if 1632 \<le> c \<and> c \<le> 1641 then Some (c - 1632)
      else if 1776 \<le> c \<and> c \<le> 1785 then Some (c - 1776)
      else if 2406 \<le> c \<and> c \<le> 2415 then Some (c - 2406)
      else if 65296 \<le> c \<and> c \<le> 65305 then Some (c - 65296)
      else None)"

definition unicode_decimal :: "nat \<Rightarrow> bool" where
  "unicode_decimal c = (decimal_value c \<noteq> None)"

text \<open>
  \<open>str.isdigit\<close> accepts the characters of numeric type Decimal or Digit: the decimal
  digits and, among others, the superscript digits U+00B2, U+00B3 and U+00B9.
\<close>

definition unicode_digit :: "nat \<Rightarrow> bool" where
  "unicode_digit c = (unicode_decimal c \<or> c = 178 \<or> c = 179 \<or> c = 185)"

definition isdigit :: "pystr \<Rightarrow> bool" where
  "isdigit s = (s \<noteq> [] \<and> list_all unicode_digit s)"

section \<open>Fields\<close>

text \<open>
  \<open>Field\<close> only wraps a value, so a \<open>Name\<close> and a \<open>Phone\<close> are modelled by the wrapped
  string. \<open>Phone_init\<close> is \<open>Phone.__init__\<close>: both checks and both raises.
\<close>

definition Phone_init :: "pyval \<Rightarrow> error + pystr" where
  "Phone_init v =
     (case v of
        PyStr s \<Rightarrow>
          (if \<not> (isdigit s \<and> length s = 10) then Inl (ValueError PhoneNotTenDigits)
           else Inr s)
      | _ \<Rightarrow> Inl (ValueError PhoneNotStr))"

section \<open>Calendar dates\<close>

text \<open>
  \<open>datetime.date\<close>: a proleptic Gregorian date with \<open>MINYEAR \<le> year \<le> MAXYEAR\<close>. The
  library is modelled by its documented behaviour: the constructor checks the year, the
  month and the day in this order, \<open>toordinal\<close> counts days from 0001-01-01 (day 1),
  \<open>weekday\<close> is 0 on Monday, and adding a \<open>timedelta\<close> of \<open>n\<close> days moves \<open>n\<close> days
  forward or raises \<open>OverflowError\<close> past the last day of \<open>MAXYEAR\<close>.
\<close>

record date =
  year :: nat
  month :: nat
  day :: nat

definition MINYEAR :: nat where
  "MINYEAR = 1"

definition MAXYEAR :: nat where
  "MAXYEAR = 9999"

definition is_leap :: "nat \<Rightarrow> bool" where
  "is_leap y = (y mod 4 = 0 \<and> (y mod 100 \<noteq> 0 \<or> y mod 400 = 0))"

definition days_in_month :: "nat \<Rightarrow> nat \<Rightarrow> nat" where
  "days_in_month y m =
     (if m = 2 \<and> is_leap y then 29
      else [0, 31, 28, 31, 30, 31, 30, 31, 31, 30, 31, 30, 31] ! m)"

definition days_before_year :: "nat \<Rightarrow> nat" where
  "days_before_year y = (y - 1) * 365 + (y - 1) div 4 - (y - 1) div 100 + (y - 1) div 400"

definition days_before_month :: "nat \<Rightarrow> nat \<Rightarrow> nat" where
  "days_before_month y m =
     [0, 0, 31, 59, 90, 120, 151, 181, 212, 243, 273, 304, 334] ! m
       + (if m > 2 \<and> is_leap y then 1 else 0)"

definition valid_date :: "date \<Rightarrow> bool" where
  "valid_date d =
     (MINYEAR \<le> year d \<and> year d \<le> MAXYEAR \<and> 1 \<le> month d \<and> month d \<le> 12
      \<and> 1 \<le> day d \<and> day d \<le> days_in_month (year d) (month d))"

definition date_new :: "nat \<Rightarrow> nat \<Rightarrow> nat \<Rightarrow> error + date" where
  "date_new y m d =
     (if \<not> (MINYEAR \<le> y \<and> y \<le> MAXYEAR) then Inl (ValueError YearOutOfRange)
      else if \<not> (1 \<le> m \<and> m \<le> 12) then Inl (ValueError MonthOutOfRange)
      else if \<not> (1 \<le> d \<and> d \<le> days_in_month y m) then Inl (ValueError DayOutOfRange)
      else Inr \<lparr>year = y, month = m, day = d\<rparr>)"

definition replace_year :: "date \<Rightarrow> nat \<Rightarrow> error + date" where
  "replace_year d y = date_new y (month d) (day d)"

definition date_lt :: "date \<Rightarrow> date \<Rightarrow> bool" where
  "date_lt a b =
     (year a < year b \<or> (year a = year b \<and>
        (month a < month b \<or> (month a = month b \<and> day a < day b))))"

definition toordinal :: "date \<Rightarrow> nat" where
  "toordinal d = days_before_year (year d) + days_before_month (year d) (month d) + day d"

definition days_between :: "date \<Rightarrow> date \<Rightarrow> int" where
  "days_between a b = int (toordinal a) - int (toordinal b)"

definition weekday :: "date \<Rightarrow> nat" where
  "weekday d = (toordinal d + 6) mod 7"

definition next_day :: "date \<Rightarrow> date" where
  "next_day d =
     (if day d < days_in_month (year d) (month d) then d\<lparr>day := day d + 1\<rparr>
      else if month d < 12 then d\<lparr>month := month d + 1, day := 1\<rparr>
      else \<lparr>year = year d + 1, month = 1, day = 1\<rparr>)"

definition add_days :: "date \<Rightarrow> nat \<Rightarrow> error + date" where
  "add_days d n =
     (let r = (next_day ^^ n) d
      in if year r > MAXYEAR then Inl OverflowError else Inr r)"

subsection \<open>Formatting\<close>

definition digit_char :: "nat \<Rightarrow> nat" where
  "digit_char n = 48 + n mod 10"

definition zpad2 :: "nat \<Rightarrow> pystr" where
  "zpad2 n = [digit_char (n div 10), digit_char n]"

definition zpad4 :: "nat \<Rightarrow> pystr" where
  "zpad4 n = [digit_char (n div 1000), digit_char (n div 100), digit_char (n div 10), digit_char n]"

text \<open>
  \<open>strftime("%Y.%m.%d")\<close> and \<open>strftime("%d.%m.%Y")\<close>, with the year written with four
  digits as the library documents \<open>%Y\<close> (for the years from 1000 on every platform
  does so); 46 is the full stop.
\<close>

definition strftime_Ymd :: "date \<Rightarrow> pystr" where
  "strftime_Ymd d = zpad4 (year d) @ [46] @ zpad2 (month d) @ [46] @ zpad2 (day d)"

definition strftime_dmY :: "date \<Rightarrow> pystr" where
  "strftime_dmY d = zpad2 (day d) @ [46] @ zpad2 (month d) @ [46] @ zpad4 (year d)"

subsection \<open>Parsing\<close>

text \<open>
  \<open>strptime(value, "%d.%m.%Y")\<close> compiles the format to the regular expression
  \<^verbatim>\<open>(?P<d>3[0-1]|[1-2]\d|0[1-9]|[1-9]| [1-9])\.(?P<m>1[0-2]|0[1-9]|[1-9])\.(?P<Y>\d\d\d\d)\<close>
  and matches it at the start of the string. A matcher returns the ways it can match a
  prefix, in the order in which backtracking tries them, each with the rest of the string.
\<close>

definition in_range :: "nat \<Rightarrow> nat \<Rightarrow> nat \<Rightarrow> bool" where
  "in_range lo hi c = (lo \<le> c \<and> c \<le> hi)"

definition re_chars :: "(nat \<Rightarrow> bool) list \<Rightarrow> pystr \<Rightarrow> (pystr \<times> pystr) list" where
  "re_chars ps s =
     (if length ps \<le> length s \<and> list_all2 (\<lambda>p c. p c) ps (take (length ps) s)
      then [(take (length ps) s, drop (length ps) s)] else [])"

definition re_alt :: "(pystr \<Rightarrow> (pystr \<times> pystr) list) list \<Rightarrow> pystr \<Rightarrow> (pystr \<times> pystr) list" where
  "re_alt ms s = concat (map (\<lambda>m. m s) ms)"

definition re_d :: "pystr \<Rightarrow> (pystr \<times> pystr) list" where
  "re_d = re_alt
     [re_chars [in_range 51 51, in_range 48 49],
      re_chars [in_range 49 50, unicode_decimal],
      re_chars [in_range 48 48, in_range 49 57],
      re_chars [in_range 49 57],
      re_chars [in_range 32 32, in_range 49 57]]"

definition re_m :: "pystr \<Rightarrow> (pystr \<times> pystr) list" where
  "re_m = re_alt
     [re_chars [in_range 49 49, in_range 48 50],
      re_chars [in_range 48 48, in_range 49 57],
      re_chars [in_range 49 57]]"

definition re_Y :: "pystr \<Rightarrow> (pystr \<times> pystr) list" where
  "re_Y = re_chars [unicode_decimal, unicode_decimal, unicode_decimal, unicode_decimal]"

definition re_dot :: "pystr \<Rightarrow> (pystr \<times> pystr) list" where
  "re_dot = re_chars [in_range 46 46]"

text \<open>The first match of the whole expression: the groups d, m, Y and what is left over.\<close>

definition re_match_dmY :: "pystr \<Rightarrow> (pystr \<times> pystr \<times> pystr \<times> pystr) option" where
  "re_match_dmY s =
     (case [(d, m, y, r5). (d, r1) \<leftarrow> re_d s, (p, r2) \<leftarrow> re_dot r1, (m, r3) \<leftarrow> re_m r2,
                           (q, r4) \<leftarrow> re_dot r3, (y, r5) \<leftarrow> re_Y r4] of
        [] \<Rightarrow> None
      | found # _ \<Rightarrow> Some found)"

text \<open>
  \<open>int\<close> on a matched group: leading spaces are stripped, then every character must be
  a decimal digit.
\<close>

fun int_digits :: "nat \<Rightarrow> pystr \<Rightarrow> nat option" where
  "int_digits acc [] = Some acc"
| "int_digits acc (c # cs) =
     (case decimal_value c of None \<Rightarrow> None | Some v \<Rightarrow> int_digits (10 * acc + v) cs)"

definition py_int :: "pystr \<Rightarrow> nat option" where
  "py_int s =
     (let t = dropWhile (\<lambda>c. c = 32) s
      in if t = [] then None else int_digits 0 t)"

definition strptime_dmY :: "pystr \<Rightarrow> error + date" where
  "strptime_dmY s =
     (case re_match_dmY s of
        None \<Rightarrow> Inl (ValueError NoMatch)
      | Some (d, m, y, rest) \<Rightarrow>
          (if rest \<noteq> [] then Inl (ValueError UnconvertedData)
           else (case (py_int y, py_int m, py_int d) of
                   (Some yy, Some mm, Some dd) \<Rightarrow> date_new yy mm dd
                 | _ \<Rightarrow> Inl (ValueError NoMatch))))"

text \<open>\<open>Birthday.__init__\<close> and \<open>Birthday.__str__\<close>; a \<open>Birthday\<close> is the wrapped date.\<close>

definition Birthday_init :: "pystr \<Rightarrow> error + date" where
  "Birthday_init v =
     (case strptime_dmY v of
        Inl (ValueError e) \<Rightarrow> Inl (ValueError BadBirthday)
      | Inl e \<Rightarrow> Inl e
      | Inr parsed \<Rightarrow> Inr parsed)"

definition Birthday_str :: "date \<Rightarrow> pystr" where
  "Birthday_str b = strftime_dmY b"

section \<open>Record\<close>

record Record =
  name :: pystr
  phones :: "pystr list"
  birthday :: "date option"

definition Record_init :: "pystr \<Rightarrow> Record" where
  "Record_init n = \<lparr>name = n, phones = [], birthday = None\<rparr>"

definition add_phone :: "Record \<Rightarrow> pystr \<Rightarrow> error + Record" where
  "add_phone self phone_str =
     (case Phone_init (PyStr phone_str) of
        Inl e \<Rightarrow> Inl e
      | Inr phone_obj \<Rightarrow>
          (if \<not> list_ex (\<lambda>p. p = phone_obj) (phones self)
           then Inr (self\<lparr>phones := phones self @ [phone_obj]\<rparr>)
           else Inr self))"

text \<open>
  The loop of \<open>remove_phone\<close>: the first phone whose value is \<open>phone_str\<close> is removed
  and the loop is left.
\<close>

fun remove_phone_loop :: "pystr list \<Rightarrow> pystr \<Rightarrow> pystr list" where
  "remove_phone_loop [] phone_str = []"
| "remove_phone_loop (ph # rest) phone_str =
     (if ph = phone_str then rest else ph # remove_phone_loop rest phone_str)"

definition remove_phone :: "Record \<Rightarrow> pystr \<Rightarrow> Record" where
  "remove_phone self phone_str = self\<lparr>phones := remove_phone_loop (phones self) phone_str\<rparr>"

text \<open>
  The loop of \<open>edit_phone\<close> over \<open>enumerate(self.phones)\<close>, from index \<open>idx\<close> on. The new
  number is validated only once a phone equal to \<open>old_phone\<close> has been found.
\<close>

function edit_phone_loop :: "nat \<Rightarrow> pystr list \<Rightarrow> pystr \<Rightarrow> pystr \<Rightarrow> error + (pystr list \<times> bool)" where
  "edit_phone_loop idx phs old_phone new_phone =
     (if idx < length phs then
        (if phs ! idx = old_phone then
           (case Phone_init (PyStr new_phone) of
              Inl e \<Rightarrow> Inl e
            | Inr new_phone_obj \<Rightarrow> Inr (phs[idx := new_phone_obj], True))
         else edit_phone_loop (Suc idx) phs old_phone new_phone)
      else Inr (phs, False))"
  by pat_completeness auto
termination
  by (relation "measure (\<lambda>(idx, phs, old_phone, new_phone). length phs - idx)") auto

declare edit_phone_loop.simps [simp del]

definition edit_phone :: "Record \<Rightarrow> pystr \<Rightarrow> pystr \<Rightarrow> error + (Record \<times> bool)" where
  "edit_phone self old_phone new_phone =
     (case edit_phone_loop 0 (phones self) old_phone new_phone of
        Inl e \<Rightarrow> Inl e
      | Inr (phs, changed) \<Rightarrow> Inr (self\<lparr>phones := phs\<rparr>, changed))"

definition add_birthday :: "Record \<Rightarrow> pystr \<Rightarrow> error + Record" where
  "add_birthday self bday_str =
     (case Birthday_init bday_str of
        Inl e \<Rightarrow> Inl e
      | Inr b \<Rightarrow> Inr (self\<lparr>birthday := Some b\<rparr>))"

definition show_birthday :: "Record \<Rightarrow> pystr option" where
  "show_birthday self = map_option Birthday_str (birthday self)"

section \<open>AddressBook\<close>

text \<open>
  The \<open>data\<close> dictionary of the \<open>UserDict\<close>, in insertion order: assigning to a key that
  is present keeps its position, a new key goes to the end.
\<close>

type_synonym AddressBook = "(pystr \<times> Record) list"

definition AddressBook_init :: AddressBook where
  "AddressBook_init = []"

fun dict_setitem :: "('k \<times> 'v) list \<Rightarrow> 'k \<Rightarrow> 'v \<Rightarrow> ('k \<times> 'v) list" where
  "dict_setitem [] k v = [(k, v)]"
| "dict_setitem ((k', v') # rest) k v =
     (if k' = k then (k, v) # rest else (k', v') # dict_setitem rest k v)"

fun dict_get :: "('k \<times> 'v) list \<Rightarrow> 'k \<Rightarrow> 'v option" where
  "dict_get [] k = None"
| "dict_get ((k', v') # rest) k = (if k' = k then Some v' else dict_get rest k)"

definition dict_contains :: "('k \<times> 'v) list \<Rightarrow> 'k \<Rightarrow> bool" where
  "dict_contains d k = list_ex (\<lambda>kv. fst kv = k) d"

definition dict_delitem :: "('k \<times> 'v) list \<Rightarrow> 'k \<Rightarrow> ('k \<times> 'v) list" where
  "dict_delitem d k = filter (\<lambda>kv. fst kv \<noteq> k) d"

definition dict_values :: "('k \<times> 'v) list \<Rightarrow> 'v list" where
  "dict_values d = map snd d"

definition add_record :: "AddressBook \<Rightarrow> Record \<Rightarrow> AddressBook" where
  "add_record book record = dict_setitem book (name record) record"

definition find_rec :: "AddressBook \<Rightarrow> pystr \<Rightarrow> error + Record" where
  "find_rec book nm =
     (case dict_get book nm of
        None \<Rightarrow> Inl (KeyError nm)
      | Some rec \<Rightarrow> Inr rec)"

definition delete :: "AddressBook \<Rightarrow> pystr \<Rightarrow> AddressBook \<times> bool" where
  "delete book nm =
     (if dict_contains book nm then (dict_delitem book nm, True) else (book, False))"

subsection \<open>Upcoming birthdays\<close>

text \<open>
  One dictionary of the result list. \<open>today\<close> is \<open>date.today()\<close>, the reading of the
  clock, passed as an argument. The loop runs over \<open>self.data.values()\<close> and appends to
  \<open>upcoming\<close>; an exception of \<open>replace\<close> or of the addition leaves the loop.
\<close>

record upcoming_entry =
  entry_name :: pystr
  congratulation_date :: pystr

fun upcoming_loop :: "date \<Rightarrow> Record list \<Rightarrow> upcoming_entry list \<Rightarrow> error + upcoming_entry list" where
  "upcoming_loop today [] upcoming = Inr upcoming"
| "upcoming_loop today (record # rest) upcoming =
     (case birthday record of
        None \<Rightarrow> upcoming_loop today rest upcoming
      | Some bday \<Rightarrow>
          (case replace_year bday (year today) of
             Inl e \<Rightarrow> Inl e
           | Inr projected \<Rightarrow>
               (case (if date_lt projected today then replace_year projected (year today + 1)
                      else Inr projected) of
                  Inl e \<Rightarrow> Inl e
                | Inr birthday_this_year \<Rightarrow>
                    (let days_ahead = days_between birthday_this_year today
                     in if 0 \<le> days_ahead \<and> days_ahead \<le> 6 then
                          (case (if weekday birthday_this_year = 5 then add_days birthday_this_year 2
                                 else if weekday birthday_this_year = 6 then add_days birthday_this_year 1
                                 else Inr birthday_this_year) of
                             Inl e \<Rightarrow> Inl e
                           | Inr congratulation \<Rightarrow>
                               upcoming_loop today rest
                                 (upcoming @ [\<lparr>entry_name = name record,
                                    congratulation_date = strftime_Ymd congratulation\<rparr>]))
                        else upcoming_loop today rest upcoming))))"

definition get_upcoming_birthdays :: "AddressBook \<Rightarrow> date \<Rightarrow> error + upcoming_entry list" where
  "get_upcoming_birthdays book today = upcoming_loop today (dict_values book) []"

section \<open>Reachable records and books\<close>

text \<open>
  The operations a caller has on a \<open>Record\<close>. An operation that raises leaves the record
  as it was, so only a returning operation leads to a new state.
\<close>

datatype rec_op =
    AddPhone pystr
  | RemovePhone pystr
  | EditPhone pystr pystr
  | AddBirthday pystr

fun apply_rec_op :: "Record \<Rightarrow> rec_op \<Rightarrow> error + Record" where
  "apply_rec_op r (AddPhone p) = add_phone r p"
| "apply_rec_op r (RemovePhone p) = Inr (remove_phone r p)"
| "apply_rec_op r (EditPhone old_phone new_phone) =
     (case edit_phone r old_phone new_phone of
        Inl e \<Rightarrow> Inl e
      | Inr (r', changed) \<Rightarrow> Inr r')"
| "apply_rec_op r (AddBirthday bday_str) = add_birthday r bday_str"

inductive reachable_record :: "Record \<Rightarrow> bool" where
  created: "reachable_record (Record_init n)"
| mutated: "reachable_record r \<Longrightarrow> apply_rec_op r opn = Inr r' \<Longrightarrow> reachable_record r'"

text \<open>
  The books that \<open>add_record\<close> and \<open>delete\<close> build from the empty book. A book holds
  references to its records, so an operation on a record obtained from \<open>find\<close> changes
  the stored record: the last rule.
\<close>

inductive reachable_book :: "AddressBook \<Rightarrow> bool" where
  empty: "reachable_book AddressBook_init"
| added: "reachable_book b \<Longrightarrow> reachable_record r \<Longrightarrow> reachable_book (add_record b r)"
| deleted: "reachable_book b \<Longrightarrow> reachable_book (fst (delete b nm))"
| stored_mutated:
    "reachable_book b \<Longrightarrow> find_rec b nm = Inr r \<Longrightarrow> apply_rec_op r opn = Inr r' \<Longrightarrow>
     reachable_book (dict_setitem b nm r')"

text \<open>The invariant of a book: the keys are distinct and each record is stored under its own name.\<close>

definition keyed_by_name :: "AddressBook \<Rightarrow> bool" where
  "keyed_by_name b = (distinct (map fst b) \<and> (\<forall>kv \<in> set b. name (snd kv) = fst kv))"

section \<open>Notions of the specification\<close>

text \<open>
  The definitions of this section are not translations of the source: they are what the
  claims are stated with.
\<close>

text \<open>A day of the proleptic Gregorian calendar, in any year from 1 on.\<close>

definition calendar_day :: "date \<Rightarrow> bool" where
  "calendar_day d =
     (1 \<le> year d \<and> 1 \<le> month d \<and> month d \<le> 12
      \<and> 1 \<le> day d \<and> day d \<le> days_in_month (year d) (month d))"

text \<open>The number that a string of ASCII digits denotes.\<close>

definition ascii_number :: "pystr \<Rightarrow> nat" where
  "ascii_number s = foldl (\<lambda>acc c. 10 * acc + (c - 48)) 0 s"

text \<open>
  Reading a string \<open>YYYY.MM.DD\<close> (four, two and two ASCII digits between full stops)
  back as year, month and day.
\<close>

definition date_of_Ymd :: "pystr \<Rightarrow> date option" where
  "date_of_Ymd s =
     (if length s = 10 \<and> s ! 4 = 46 \<and> s ! 7 = 46
         \<and> list_all ascii_digit (take 4 s @ take 2 (drop 5 s) @ drop 8 s)
      then Some \<lparr>year = ascii_number (take 4 s), month = ascii_number (take 2 (drop 5 s)),
                 day = ascii_number (drop 8 s)\<rparr>
      else None)"



subsection \<open>The upcoming-birthdays query of section 4.5\<close>

text \<open>
  Steps 1 and 2: the month and day of the birthday in today's year, or in the next year
  when that is before today.
\<close>

definition spec_withYear :: "date \<Rightarrow> nat \<Rightarrow> date" where
  "spec_withYear b y = b\<lparr>year := y\<rparr>"

definition spec_projected :: "date \<Rightarrow> date \<Rightarrow> date" where
  "spec_projected today b =
     (if date_lt (spec_withYear b (year today)) today then spec_withYear b (year today + 1)
      else spec_withYear b (year today))"



text \<open>Step 5: the days to add to a projected date: 2 on a Saturday, 1 on a Sunday.\<close>

definition spec_shift :: "date \<Rightarrow> nat" where
  "spec_shift p = (if weekday p = 5 then 2 else if weekday p = 6 then 1 else 0)"

text \<open>
  Step 6: the entry of a qualifying record carries its name and, written \<open>YYYY.MM.DD\<close>,
  the date of the calendar that lies the shift after the projected date.
\<close>

definition spec_entry :: "date \<Rightarrow> Record \<Rightarrow> upcoming_entry \<Rightarrow> bool" where
  "spec_entry today r e =
     (case birthday r of
        None \<Rightarrow> False
      | Some b \<Rightarrow>
          entry_name e = name r
          \<and> (case date_of_Ymd (congratulation_date e) of
               None \<Rightarrow> False
             | Some c \<Rightarrow>
                 valid_date c
                 \<and> toordinal c
                     = toordinal (spec_projected today b) + spec_shift (spec_projected today b)))"


text \<open>An entry whose date string reads back as a valid date on Monday to Friday.\<close>

definition on_weekday :: "upcoming_entry \<Rightarrow> bool" where
  "on_weekday e =
     (case date_of_Ymd (congratulation_date e) of
        None \<Rightarrow> False
      | Some c \<Rightarrow> valid_date c \<and> weekday c < 5)"

section \<open>Properties of the calendar\<close>

text \<open>
  The day after a calendar day is a calendar day, one further in the count of days and
  one further in the week.
\<close>

lemma month_cases:
  "1 \<le> m \<Longrightarrow> m \<le> 12 \<Longrightarrow>
   m = 1 \<or> m = 2 \<or> m = 3 \<or> m = 4 \<or> m = 5 \<or> m = 6 \<or> m = 7 \<or> m = 8 \<or> m = 9 \<or> m = 10
   \<or> m = 11 \<or> m = (12::nat)"
  by arith

lemma mod_400_100: "x mod 400 = 0 \<Longrightarrow> x mod 100 = (0::nat)"
proof -
  assume h: "x mod 400 = 0"
  have "(100::nat) dvd 400" by simp
  from mod_mod_cancel [OF this, of x] h show ?thesis by simp
qed

lemma mod_100_4: "x mod 100 = 0 \<Longrightarrow> x mod 4 = (0::nat)"
proof -
  assume h: "x mod 100 = 0"
  have "(4::nat) dvd 100" by simp
  from mod_mod_cancel [OF this, of x] h show ?thesis by simp
qed

lemma leap_arith:
  fixes a b c n :: nat
  assumes "b \<le> a" "p400 \<Longrightarrow> p100" "p100 \<Longrightarrow> p4"
  shows "Suc n * 365 + (a + (if p4 then 1 else 0)) - (b + (if p100 then 1 else 0))
       + (c + (if p400 then 1 else 0))
    = n * 365 + a - b + c + (if p4 \<and> (\<not> p100 \<or> p400) then 366 else 365)"
proof -
  obtain k where k: "a = b + k" using assms(1) by (auto simp: le_iff_add)
  have s: "Suc n * 365 = n * 365 + 365" by simp
  show ?thesis
    unfolding s k using assms(2,3) by (cases p4; cases p100; cases p400) simp_all
qed

lemma days_before_year_Suc:
  assumes "1 \<le> y"
  shows "days_before_year (Suc y) = days_before_year y + (if is_leap y then 366 else 365)"
proof -
  from assms obtain n where y: "y = Suc n" by (cases y) auto
  have d4: "Suc n div 4 = n div 4 + (if Suc n mod 4 = 0 then 1 else 0)"
    by (simp only: div_Suc split: if_splits) simp
  have d100: "Suc n div 100 = n div 100 + (if Suc n mod 100 = 0 then 1 else 0)"
    by (simp only: div_Suc split: if_splits) simp
  have d400: "Suc n div 400 = n div 400 + (if Suc n mod 400 = 0 then 1 else 0)"
    by (simp only: div_Suc split: if_splits) simp
  have le: "n div 100 \<le> n div 4"
    by (rule div_le_mono2) simp_all
  show ?thesis
    unfolding days_before_year_def is_leap_def y
    by (simp only: diff_Suc_1 d4 d100 d400)
       (rule leap_arith [OF le mod_400_100 mod_100_4])
qed

lemma days_before_month_Suc:
  "1 \<le> m \<Longrightarrow> m < 12 \<Longrightarrow>
   days_before_month y (Suc m) = days_before_month y m + days_in_month y m"
proof -
  assume "1 \<le> m" "m < 12"
  then have "m = 1 \<or> m = 2 \<or> m = 3 \<or> m = 4 \<or> m = 5 \<or> m = 6 \<or> m = 7 \<or> m = 8 \<or> m = 9
    \<or> m = 10 \<or> m = 11" by arith
  then show ?thesis
    by (elim disjE) (simp_all add: days_before_month_def days_in_month_def)
qed

lemma days_in_month_bounds:
  "1 \<le> m \<Longrightarrow> m \<le> 12 \<Longrightarrow> 28 \<le> days_in_month y m \<and> days_in_month y m \<le> 31"
  by (drule (1) month_cases, elim disjE) (simp_all add: days_in_month_def)

lemma toordinal_next_day:
  assumes "calendar_day d"
  shows "toordinal (next_day d) = toordinal d + 1"
proof -
  from assms have y: "1 \<le> year d" and m: "1 \<le> month d" "month d \<le> 12"
    and dd: "1 \<le> day d" "day d \<le> days_in_month (year d) (month d)"
    by (simp_all add: calendar_day_def)
  show ?thesis
  proof (cases "day d < days_in_month (year d) (month d)")
    case True
    then show ?thesis by (simp add: next_day_def toordinal_def)
  next
    case False
    with dd have e: "day d = days_in_month (year d) (month d)" by simp
    show ?thesis
    proof (cases "month d < 12")
      case True
      with e m days_before_month_Suc [of "month d" "year d"] show ?thesis
        by (simp add: next_day_def toordinal_def)
    next
      case False
      with m have m12: "month d = 12" by simp
      with e have "day d = 31" by (simp add: days_in_month_def)
      with m12 days_before_year_Suc [OF y] show ?thesis
        by (simp add: next_day_def toordinal_def days_before_month_def)
    qed
  qed
qed

lemma calendar_day_next_day:
  assumes "calendar_day d"
  shows "calendar_day (next_day d)"
proof -
  from assms have m: "1 \<le> month d" "month d \<le> 12" by (simp_all add: calendar_day_def)
  from days_in_month_bounds [of "Suc (month d)" "year d"]
  have "month d < 12 \<Longrightarrow> 1 \<le> days_in_month (year d) (Suc (month d))" by simp
  with assms show ?thesis
    by (auto simp: calendar_day_def next_day_def days_in_month_def)
qed

lemma weekday_next_day:
  "calendar_day d \<Longrightarrow> weekday (next_day d) = (weekday d + 1) mod 7"
  by (simp add: weekday_def toordinal_next_day mod_simps)

lemma weekday_lt_7: "weekday d < 7"
  by (simp add: weekday_def)

lemma valid_date_calendar_day: "valid_date d \<Longrightarrow> calendar_day d"
  by (simp add: valid_date_def calendar_day_def MINYEAR_def)

lemma date_new_valid: "date_new y m d = Inr r \<Longrightarrow> valid_date r \<and> year r = y \<and> month r = m \<and> day r = d"
  by (auto simp: date_new_def valid_date_def split: if_splits)


lemma add_days_1:
  "calendar_day d \<Longrightarrow> add_days d 1 = Inr c \<Longrightarrow>
   valid_date c \<and> toordinal c = toordinal d + 1 \<and> weekday c = (weekday d + 1) mod 7"
  using calendar_day_next_day [of d] toordinal_next_day [of d] weekday_next_day [of d]
  by (auto simp: add_days_def Let_def valid_date_def calendar_day_def MINYEAR_def split: if_splits)

lemma add_days_2:
  assumes "calendar_day d" and "add_days d 2 = Inr c"
  shows "valid_date c \<and> toordinal c = toordinal d + 2 \<and> weekday c = (weekday d + 2) mod 7"
proof -
  from assms(2) have c: "c = next_day (next_day d)" and y: "year c \<le> MAXYEAR"
    by (auto simp: add_days_def Let_def numeral_2_eq_2 split: if_splits)
  from assms(1) have c1: "calendar_day (next_day d)" by (rule calendar_day_next_day)
  then have c2: "calendar_day (next_day (next_day d))" by (rule calendar_day_next_day)
  have "toordinal c = toordinal d + 2"
    using toordinal_next_day [OF c1] toordinal_next_day [OF assms(1)] c by simp
  moreover have "weekday c = (weekday d + 2) mod 7"
    using weekday_next_day [OF c1] weekday_next_day [OF assms(1)] c by (simp add: mod_simps)
  moreover have "valid_date c"
    using c2 c y by (simp add: valid_date_def calendar_day_def MINYEAR_def)
  ultimately show ?thesis by simp
qed

subsection \<open>Bounds on the count of days\<close>

lemma days_before_year_mono:
  assumes "1 \<le> y" and "y \<le> y'"
  shows "days_before_year y \<le> days_before_year y'"
  using assms(2) assms(1)
proof (induction y' rule: dec_induct)
  case base
  then show ?case by simp
next
  case (step n)
  then have "1 \<le> n" by simp
  from days_before_year_Suc [OF this] step show ?case by (simp split: if_splits)
qed

lemma toordinal_upper:
  assumes "calendar_day d"
  shows "toordinal d \<le> days_before_year (Suc (year d))"
proof -
  from assms have y: "1 \<le> year d" and m: "1 \<le> month d" "month d \<le> 12"
    and dd: "day d \<le> days_in_month (year d) (month d)"
    by (simp_all add: calendar_day_def)
  have "days_before_month (year d) (month d) + days_in_month (year d) (month d)
        \<le> (if is_leap (year d) then 366 else 365)"
    using month_cases [OF m]
    by (elim disjE) (simp_all add: days_before_month_def days_in_month_def)
  with dd days_before_year_Suc [OF y] show ?thesis
    by (simp add: toordinal_def split: if_splits)
qed

lemma toordinal_lower: "1 \<le> day d \<Longrightarrow> days_before_year (year d) < toordinal d"
  by (simp add: toordinal_def)






text \<open>
  The comparison of dates is the comparison of their day counts, and a calendar day is
  determined by its count.
\<close>

lemma days_before_month_mono:
  assumes "1 \<le> m" and "m \<le> m'" and "m' \<le> 12"
  shows "days_before_month y m \<le> days_before_month y m'"
  using assms(2) assms(1) assms(3)
proof (induction m' rule: dec_induct)
  case base
  then show ?case by simp
next
  case (step n)
  then have "1 \<le> n" "n < 12" by simp_all
  from days_before_month_Suc [OF this, of y] step show ?case by simp
qed

lemma days_before_month_next:
  assumes "1 \<le> m" and "m < m'" and "m' \<le> 12"
  shows "days_before_month y m + days_in_month y m \<le> days_before_month y m'"
proof -
  from assms have "m < 12" by simp
  from days_before_month_Suc [OF assms(1) this, of y]
  have "days_before_month y m + days_in_month y m = days_before_month y (Suc m)" by simp
  also have "\<dots> \<le> days_before_month y m'"
    using assms by (intro days_before_month_mono) simp_all
  finally show ?thesis .
qed

lemma toordinal_less:
  assumes a: "calendar_day a" and b: "calendar_day b" and lt: "date_lt a b"
  shows "toordinal a < toordinal b"
proof -
  from a have ya: "1 \<le> year a" and ma: "1 \<le> month a" and da: "day a \<le> days_in_month (year a) (month a)"
    by (simp_all add: calendar_day_def)
  from b have mb: "month b \<le> 12" and db: "1 \<le> day b"
    by (simp_all add: calendar_day_def)
  from lt consider (y) "year a < year b"
    | (m) "year a = year b" "month a < month b"
    | (d) "year a = year b" "month a = month b" "day a < day b"
    by (auto simp: date_lt_def)
  then show ?thesis
  proof cases
    case y
    then have "days_before_year (Suc (year a)) \<le> days_before_year (year b)"
      by (intro days_before_year_mono) simp_all
    with toordinal_upper [OF a] toordinal_lower [OF db] show ?thesis by simp
  next
    case m
    from days_before_month_next [OF ma m(2) mb, of "year b"] da db m(1) show ?thesis
      by (simp add: toordinal_def)
  next
    case d
    then show ?thesis by (simp add: toordinal_def)
  qed
qed

lemma date_lt_iff_toordinal:
  assumes "calendar_day a" and "calendar_day b"
  shows "date_lt a b \<longleftrightarrow> toordinal a < toordinal b"
proof
  assume "date_lt a b"
  with assms show "toordinal a < toordinal b" by (rule toordinal_less)
next
  assume l: "toordinal a < toordinal b"
  show "date_lt a b"
  proof (rule ccontr)
    assume n: "\<not> date_lt a b"
    have "a = b \<or> date_lt b a"
      using n by (cases a; cases b) (auto simp: date_lt_def)
    then show False
    proof
      assume "a = b"
      with l show False by simp
    next
      assume "date_lt b a"
      from toordinal_less [OF assms(2) assms(1) this] l show False by simp
    qed
  qed
qed

lemma toordinal_inj:
  assumes "calendar_day a" and "calendar_day b" and "toordinal a = toordinal b"
  shows "a = b"
proof -
  from assms date_lt_iff_toordinal [of a b] date_lt_iff_toordinal [of b a]
  have "\<not> date_lt a b" "\<not> date_lt b a" by simp_all
  then show ?thesis by (cases a; cases b) (auto simp: date_lt_def)
qed

subsection \<open>Formatting and reading back\<close>

lemma digit_char_ascii: "ascii_digit (digit_char n)"
  by (simp add: digit_char_def ascii_digit_def)

lemma digit_char_value: "digit_char n - 48 = n mod 10"
  by (simp add: digit_char_def)

lemma digits2: "n < 100 \<Longrightarrow> 10 * (n div 10 mod 10) + n mod 10 = (n::nat)"
proof -
  assume "n < 100"
  then have "n div 10 < 10" by (simp add: less_mult_imp_div_less)
  then show ?thesis by simp
qed

lemma digits4:
  assumes "n < 10000"
  shows "1000 * (n div 1000) + 100 * (n div 100 mod 10) + 10 * (n div 10 mod 10) + n mod 10 = (n::nat)"
proof -
  define q1 q2 q3 r0 r1 r2 where "q1 = n div 10" and "q2 = q1 div 10" and "q3 = q2 div 10"
    and "r0 = n mod 10" and "r1 = q1 mod 10" and "r2 = q2 mod 10"
  have e1: "n = 10 * q1 + r0" by (simp add: q1_def r0_def)
  have e2: "q1 = 10 * q2 + r1" by (simp add: q2_def r1_def)
  have e3: "q2 = 10 * q3 + r2" by (simp add: q3_def r2_def)
  have a: "n div 100 = q2" by (simp add: q2_def q1_def div_mult2_eq)
  have b: "n div 1000 = q3" by (simp add: q3_def q2_def q1_def div_mult2_eq)
  have c: "n div 10 mod 10 = r1" by (simp add: r1_def q1_def)
  have d: "n mod 10 = r0" by (simp add: r0_def)
  have "1000 * q3 + 100 * r2 + 10 * r1 + r0 = n"
    using e1 e2 e3 by simp
  then show ?thesis
    unfolding a b c d r2_def [symmetric] .
qed

lemma ascii_number_zpad2: "n < 100 \<Longrightarrow> ascii_number (zpad2 n) = n"
  by (simp add: ascii_number_def zpad2_def digit_char_value digits2)

lemma ascii_number_zpad4: "n < 10000 \<Longrightarrow> ascii_number (zpad4 n) = n"
  using digits4 [of n] by (simp add: ascii_number_def zpad4_def digit_char_value)

lemma date_of_Ymd_strftime:
  assumes "valid_date c"
  shows "date_of_Ymd (strftime_Ymd c) = Some c"
proof -
  from assms have y: "year c < 10000" and m: "month c < 100"
    by (simp_all add: valid_date_def MAXYEAR_def)
  from assms days_in_month_bounds [of "month c" "year c"] have d: "day c < 100"
    by (simp add: valid_date_def)
  have s: "strftime_Ymd c = zpad4 (year c) @ [46] @ zpad2 (month c) @ [46] @ zpad2 (day c)"
    by (simp add: strftime_Ymd_def)
  have l4: "length (zpad4 (year c)) = 4" and l2: "length (zpad2 (month c)) = 2"
    and l2': "length (zpad2 (day c)) = 2"
    by (simp_all add: zpad4_def zpad2_def)
  have t1: "take 4 (strftime_Ymd c) = zpad4 (year c)" using l4 by (simp add: s)
  have t2: "take 2 (drop 5 (strftime_Ymd c)) = zpad2 (month c)" using l4 l2 by (simp add: s)
  have t3: "drop 8 (strftime_Ymd c) = zpad2 (day c)" using l4 l2 by (simp add: s)
  have dg: "list_all ascii_digit (zpad4 (year c) @ zpad2 (month c) @ zpad2 (day c))"
    by (simp add: zpad4_def zpad2_def digit_char_ascii)
  have len: "length (strftime_Ymd c) = 10" using l4 l2 l2' by (simp add: s)
  have p4: "strftime_Ymd c ! 4 = 46" using l4 by (simp add: s nth_append)
  have p7: "strftime_Ymd c ! 7 = 46" using l4 l2 by (simp add: s nth_append)
  show ?thesis
    unfolding date_of_Ymd_def t1 t2 t3
    using len p4 p7 dg y m d
    by (simp add: ascii_number_zpad2 ascii_number_zpad4)
qed

section \<open>Properties of the fields and of Record\<close>

subsection \<open>Phone numbers\<close>



lemma Phone_init_value: "Phone_init (PyStr s) = Inr p \<Longrightarrow> p = s"
  by (auto simp: Phone_init_def split: if_splits)




subsection \<open>Editing a phone\<close>

lemma edit_phone_loop_absent:
  "(\<forall>j. idx \<le> j \<and> j < length phs \<longrightarrow> phs ! j \<noteq> old_phone) \<Longrightarrow>
   edit_phone_loop idx phs old_phone new_phone = Inr (phs, False)"
proof (induction idx phs old_phone new_phone rule: edit_phone_loop.induct)
  case (1 idx phs old_phone new_phone)
  show ?case
  proof (cases "idx < length phs")
    case True
    with "1.prems" have ne: "phs ! idx \<noteq> old_phone" by simp
    from "1.prems" have "\<forall>j. Suc idx \<le> j \<and> j < length phs \<longrightarrow> phs ! j \<noteq> old_phone" by simp
    with "1.IH" True ne have "edit_phone_loop (Suc idx) phs old_phone new_phone = Inr (phs, False)"
      by blast
    with True ne show ?thesis by (subst edit_phone_loop.simps) simp
  next
    case False
    then show ?thesis by (subst edit_phone_loop.simps) simp
  qed
qed

lemma edit_phone_loop_first:
  "idx \<le> i \<Longrightarrow> i < length phs \<Longrightarrow> phs ! i = old_phone \<Longrightarrow>
   (\<forall>j. idx \<le> j \<and> j < i \<longrightarrow> phs ! j \<noteq> old_phone) \<Longrightarrow>
   edit_phone_loop idx phs old_phone new_phone =
     (case Phone_init (PyStr new_phone) of
        Inl e \<Rightarrow> Inl e
      | Inr p \<Rightarrow> Inr (phs[i := p], True))"
proof (induction idx phs old_phone new_phone rule: edit_phone_loop.induct)
  case (1 idx phs old_phone new_phone)
  show ?case
  proof (cases "idx = i")
    case True
    with "1.prems" show ?thesis by (subst edit_phone_loop.simps) auto
  next
    case False
    with "1.prems" have lt: "idx < i" and ne: "phs ! idx \<noteq> old_phone" by auto
    from lt "1.prems" have il: "idx < length phs" by simp
    from lt "1.prems" have "\<forall>j. Suc idx \<le> j \<and> j < i \<longrightarrow> phs ! j \<noteq> old_phone" by simp
    with "1.IH" [OF il ne] lt "1.prems"
    have "edit_phone_loop (Suc idx) phs old_phone new_phone =
       (case Phone_init (PyStr new_phone) of Inl e \<Rightarrow> Inl e | Inr p \<Rightarrow> Inr (phs[i := p], True))"
      by simp
    with il ne show ?thesis by (subst edit_phone_loop.simps) simp
  qed
qed

lemma first_index:
  "x \<in> set xs \<Longrightarrow> \<exists>i < length xs. xs ! i = x \<and> (\<forall>j < i. xs ! j \<noteq> x)"
proof -
  assume "x \<in> set xs"
  then have ex: "\<exists>i. i < length xs \<and> xs ! i = x" by (auto simp: in_set_conv_nth)
  define i where "i = (LEAST i. i < length xs \<and> xs ! i = x)"
  from ex have p: "i < length xs \<and> xs ! i = x" unfolding i_def by (rule LeastI_ex)
  have "\<forall>j < i. xs ! j \<noteq> x"
  proof (intro allI impI notI)
    fix j assume j: "j < i" and e: "xs ! j = x"
    with p have "j < length xs \<and> xs ! j = x" by simp
    then have "i \<le> j" unfolding i_def by (rule Least_le)
    with j show False by simp
  qed
  with p show ?thesis by blast
qed

text \<open>
  C5, as the code has it. \<open>edit_phone\<close> validates the new number only when a stored phone
  equals \<open>old_phone\<close>: then a validation error is propagated, and a valid new number
  replaces the first such phone at its position and the result is \<open>True\<close>. When no
  stored phone equals \<open>old_phone\<close> the result is \<open>False\<close>, nothing is raised and the record
  is unchanged, whatever the new number is.
\<close>

theorem edit_phone_contract:
  "(old_phone \<notin> set (phones self) \<longrightarrow> edit_phone self old_phone new_phone = Inr (self, False))
   \<and> (old_phone \<in> set (phones self) \<longrightarrow>
        (\<forall>e. Phone_init (PyStr new_phone) = Inl e \<longrightarrow> edit_phone self old_phone new_phone = Inl e)
        \<and> (\<forall>p. Phone_init (PyStr new_phone) = Inr p \<longrightarrow>
             (\<exists>i < length (phones self). phones self ! i = old_phone
                \<and> (\<forall>j < i. phones self ! j \<noteq> old_phone)
                \<and> edit_phone self old_phone new_phone =
                    Inr (self\<lparr>phones := (phones self)[i := new_phone]\<rparr>, True))))"
proof (intro conjI impI allI)
  assume "old_phone \<notin> set (phones self)"
  then have "\<forall>j. 0 \<le> j \<and> j < length (phones self) \<longrightarrow> phones self ! j \<noteq> old_phone"
    by (auto simp: in_set_conv_nth)
  then have "edit_phone_loop 0 (phones self) old_phone new_phone = Inr (phones self, False)"
    by (rule edit_phone_loop_absent)
  then show "edit_phone self old_phone new_phone = Inr (self, False)"
    by (simp add: edit_phone_def)
next
  fix e
  assume m: "old_phone \<in> set (phones self)" and v: "Phone_init (PyStr new_phone) = Inl e"
  from first_index [OF m] obtain i where i: "i < length (phones self)" "phones self ! i = old_phone"
    "\<forall>j < i. phones self ! j \<noteq> old_phone" by blast
  then have "edit_phone_loop 0 (phones self) old_phone new_phone =
     (case Phone_init (PyStr new_phone) of Inl e \<Rightarrow> Inl e | Inr p \<Rightarrow> Inr ((phones self)[i := p], True))"
    by (intro edit_phone_loop_first) auto
  with v show "edit_phone self old_phone new_phone = Inl e"
    by (simp add: edit_phone_def)
next
  fix p
  assume m: "old_phone \<in> set (phones self)" and v: "Phone_init (PyStr new_phone) = Inr p"
  from first_index [OF m] obtain i where i: "i < length (phones self)" "phones self ! i = old_phone"
    "\<forall>j < i. phones self ! j \<noteq> old_phone" by blast
  then have "edit_phone_loop 0 (phones self) old_phone new_phone =
     (case Phone_init (PyStr new_phone) of Inl e \<Rightarrow> Inl e | Inr p \<Rightarrow> Inr ((phones self)[i := p], True))"
    by (intro edit_phone_loop_first) auto
  with v Phone_init_value [OF v]
  have "edit_phone self old_phone new_phone = Inr (self\<lparr>phones := (phones self)[i := new_phone]\<rparr>, True)"
    by (simp add: edit_phone_def)
  with i show "\<exists>i < length (phones self). phones self ! i = old_phone
                \<and> (\<forall>j < i. phones self ! j \<noteq> old_phone)
                \<and> edit_phone self old_phone new_phone =
                    Inr (self\<lparr>phones := (phones self)[i := new_phone]\<rparr>, True)"
    by blast
qed

theorem edit_phone_contract_witness:
  "edit_phone \<lparr>name = str ''Bob'', phones = [str ''0501234567'', str ''0671234567''], birthday = None\<rparr>
      (str ''0671234567'') (str ''0931234567'')
     = Inr (\<lparr>name = str ''Bob'', phones = [str ''0501234567'', str ''0931234567''], birthday = None\<rparr>, True)
   \<and> edit_phone \<lparr>name = str ''Bob'', phones = [str ''0501234567'', str ''0671234567''], birthday = None\<rparr>
      (str ''0671234567'') (str ''93'')
     = Inl (ValueError PhoneNotTenDigits)
   \<and> edit_phone \<lparr>name = str ''Bob'', phones = [str ''0501234567'', str ''0671234567''], birthday = None\<rparr>
      (str ''0991234567'') (str ''0931234567'')
     = Inr (\<lparr>name = str ''Bob'', phones = [str ''0501234567'', str ''0671234567''], birthday = None\<rparr>, False)"
proof -
  define r where
    "r = \<lparr>name = str ''Bob'', phones = [str ''0501234567'', str ''0671234567''], birthday = None\<rparr>"
  have ph: "phones r = [str ''0501234567'', str ''0671234567'']"
    by (simp add: r_def)
  have v: "Phone_init (PyStr (str ''0931234567'')) = Inr (str ''0931234567'')"
    by (simp add: Phone_init_def isdigit_def str_def unicode_digit_def unicode_decimal_def
        decimal_value_def)
  have w: "Phone_init (PyStr (str ''93'')) = Inl (ValueError PhoneNotTenDigits)"
    by (simp add: Phone_init_def str_def)
  have m: "str ''0671234567'' \<in> set (phones r)"
    by (simp add: ph)
  have n: "str ''0991234567'' \<notin> set (phones r)"
    by (simp add: ph str_def)
  from edit_phone_contract [of "str ''0671234567''" r "str ''0931234567''"] m v
  obtain i where i: "i < length (phones r)" "phones r ! i = str ''0671234567''"
    and e: "edit_phone r (str ''0671234567'') (str ''0931234567'')
              = Inr (r\<lparr>phones := (phones r)[i := str ''0931234567'']\<rparr>, True)"
    by blast
  from i have "i = 1"
    by (cases i) (simp_all add: ph str_def)
  with e have c1: "edit_phone r (str ''0671234567'') (str ''0931234567'')
     = Inr (\<lparr>name = str ''Bob'', phones = [str ''0501234567'', str ''0931234567''], birthday = None\<rparr>, True)"
    by (simp add: r_def)
  from edit_phone_contract [of "str ''0671234567''" r "str ''93''"] m w
  have c2: "edit_phone r (str ''0671234567'') (str ''93'') = Inl (ValueError PhoneNotTenDigits)"
    by blast
  from edit_phone_contract [of "str ''0991234567''" r "str ''0931234567''"] n
  have c3: "edit_phone r (str ''0991234567'') (str ''0931234567'') = Inr (r, False)"
    by blast
  from c1 c2 c3 show ?thesis
    by (simp add: r_def)
qed

text \<open>
  The claim C5 as the specification words it does not hold: with no stored phone equal
  to \<open>old_phone\<close>, an invalid new number raises nothing.
\<close>

theorem edit_phone_unvalidated_counterexample:
  "Phone_init (PyStr (str ''abc'')) = Inl (ValueError PhoneNotTenDigits)
   \<and> edit_phone \<lparr>name = str ''Bob'', phones = [str ''0501234567''], birthday = None\<rparr>
        (str ''0939999999'') (str ''abc'')
      = Inr (\<lparr>name = str ''Bob'', phones = [str ''0501234567''], birthday = None\<rparr>, False)"
  by (simp add: Phone_init_def isdigit_def edit_phone_def edit_phone_loop.simps str_def)

subsection \<open>The phone list\<close>

text \<open>
  \<open>add_phone\<close> and \<open>remove_phone\<close> keep the phones distinct, and adding a phone a second
  time changes nothing.
\<close>

lemma add_phone_distinct:
  "distinct (phones r) \<Longrightarrow> add_phone r p = Inr r' \<Longrightarrow> distinct (phones r')"
  by (auto simp: add_phone_def list_ex_iff split: sum.splits if_splits)

lemma add_phone_twice:
  "add_phone r p = Inr r' \<Longrightarrow> add_phone r' p = Inr r'"
  by (auto simp: add_phone_def list_ex_iff split: sum.splits if_splits)

lemma remove_phone_loop_remove1: "remove_phone_loop phs p = remove1 p phs"
  by (induction phs) auto

lemma remove_phone_distinct:
  "distinct (phones r) \<Longrightarrow> distinct (phones (remove_phone r p))"
  by (simp add: remove_phone_def remove_phone_loop_remove1)

text \<open>
  C6 fails on the code. \<open>edit_phone\<close> does not look for the new number among the stored
  phones as \<open>add_phone\<close> does: after adding 1111111111 and 2222222222 to a new record,
  editing 1111111111 into 2222222222 succeeds and leaves the phone 2222222222 twice.
\<close>

theorem edit_phone_duplicates:
  "add_phone (Record_init (str ''Bob'')) (str ''1111111111'')
     = Inr \<lparr>name = str ''Bob'', phones = [str ''1111111111''], birthday = None\<rparr>
   \<and> add_phone \<lparr>name = str ''Bob'', phones = [str ''1111111111''], birthday = None\<rparr> (str ''2222222222'')
     = Inr \<lparr>name = str ''Bob'', phones = [str ''1111111111'', str ''2222222222''], birthday = None\<rparr>
   \<and> edit_phone \<lparr>name = str ''Bob'', phones = [str ''1111111111'', str ''2222222222''], birthday = None\<rparr>
        (str ''1111111111'') (str ''2222222222'')
     = Inr (\<lparr>name = str ''Bob'', phones = [str ''2222222222'', str ''2222222222''], birthday = None\<rparr>, True)
   \<and> \<not> distinct [str ''2222222222'', str ''2222222222'']"
  by (simp add: Record_init_def add_phone_def Phone_init_def isdigit_def edit_phone_def
      edit_phone_loop.simps str_def unicode_digit_def unicode_decimal_def decimal_value_def)

section \<open>Properties of AddressBook\<close>

lemma dict_get_member:
  "distinct (map fst d) \<Longrightarrow> (k, v) \<in> set d \<Longrightarrow> dict_get d k = Some v"
  by (induction d) (auto simp: rev_image_eqI)

lemma dict_get_absent: "k \<notin> fst ` set d \<Longrightarrow> dict_get d k = None"
  by (induction d) auto

lemma dict_contains_iff: "dict_contains d k \<longleftrightarrow> k \<in> fst ` set d"
  by (auto simp: dict_contains_def list_ex_iff)

lemma dict_setitem_keys: "fst ` set (dict_setitem d k v) = insert k (fst ` set d)"
  by (induction d) (force split: if_splits)+

lemma dict_setitem_distinct: "distinct (map fst d) \<Longrightarrow> distinct (map fst (dict_setitem d k v))"
  by (induction d) (auto simp: dict_setitem_keys)

lemma dict_setitem_set: "set (dict_setitem d k v) \<subseteq> insert (k, v) (set d)"
  by (induction d) (auto split: if_splits)

lemma dict_get_in: "dict_get d k = Some v \<Longrightarrow> (k, v) \<in> set d"
  by (induction d) (auto split: if_splits)

text \<open>
  C7. In a book (a dictionary, so with distinct keys), \<open>find\<close> returns the record stored
  under a name that is present and raises \<open>KeyError\<close> for a name that is absent; \<open>delete\<close>
  has no raising path: for a name that is present it removes the entry, keeping the
  others in order, and returns \<open>True\<close>, and for a name that is absent it returns \<open>False\<close>
  and the same book.
\<close>

theorem find_delete_contract:
  assumes "distinct (map fst book)"
  shows "((nm, r) \<in> set book \<longrightarrow> find_rec book nm = Inr r)
    \<and> (nm \<notin> fst ` set book \<longrightarrow> find_rec book nm = Inl (KeyError nm))
    \<and> (nm \<in> fst ` set book \<longrightarrow>
         delete book nm = (filter (\<lambda>kv. fst kv \<noteq> nm) book, True)
         \<and> nm \<notin> fst ` set (fst (delete book nm))
         \<and> distinct (map fst (fst (delete book nm))))
    \<and> (nm \<notin> fst ` set book \<longrightarrow> delete book nm = (book, False))"
proof (intro conjI impI)
  assume "(nm, r) \<in> set book"
  with assms show "find_rec book nm = Inr r"
    by (simp add: find_rec_def dict_get_member)
next
  assume "nm \<notin> fst ` set book"
  then show "find_rec book nm = Inl (KeyError nm)"
    by (simp add: find_rec_def dict_get_absent)
next
  assume "nm \<in> fst ` set book"
  then show "delete book nm = (filter (\<lambda>kv. fst kv \<noteq> nm) book, True)"
    by (simp add: delete_def dict_contains_iff dict_delitem_def)
next
  assume "nm \<in> fst ` set book"
  then show "nm \<notin> fst ` set (fst (delete book nm))"
    by (auto simp: delete_def dict_contains_iff dict_delitem_def)
next
  assume "nm \<in> fst ` set book"
  with assms show "distinct (map fst (fst (delete book nm)))"
    by (simp add: delete_def dict_contains_iff dict_delitem_def distinct_map_filter)
next
  assume "nm \<notin> fst ` set book"
  then show "delete book nm = (book, False)"
    by (simp add: delete_def dict_contains_iff)
qed

theorem find_delete_contract_witness:
  "distinct (map fst [(str ''Ann'', Record_init (str ''Ann'')), (str ''Bob'', Record_init (str ''Bob''))])
   \<and> find_rec [(str ''Ann'', Record_init (str ''Ann'')), (str ''Bob'', Record_init (str ''Bob''))] (str ''Bob'')
       = Inr (Record_init (str ''Bob''))
   \<and> find_rec [(str ''Ann'', Record_init (str ''Ann'')), (str ''Bob'', Record_init (str ''Bob''))] (str ''Eve'')
       = Inl (KeyError (str ''Eve''))
   \<and> delete [(str ''Ann'', Record_init (str ''Ann'')), (str ''Bob'', Record_init (str ''Bob''))] (str ''Ann'')
       = ([(str ''Bob'', Record_init (str ''Bob''))], True)
   \<and> delete [(str ''Ann'', Record_init (str ''Ann'')), (str ''Bob'', Record_init (str ''Bob''))] (str ''Eve'')
       = ([(str ''Ann'', Record_init (str ''Ann'')), (str ''Bob'', Record_init (str ''Bob''))], False)"
proof -
  have d: "distinct (map fst [(str ''Ann'', Record_init (str ''Ann'')), (str ''Bob'', Record_init (str ''Bob''))])"
    by (simp add: str_def)
  show ?thesis
    using d find_delete_contract [OF d, of "str ''Bob''" "Record_init (str ''Bob'')"]
      find_delete_contract [OF d, of "str ''Eve''"] find_delete_contract [OF d, of "str ''Ann''"]
    by (simp add: str_def)
qed

subsection \<open>Names and keys\<close>

lemma add_phone_name: "add_phone r p = Inr r' \<Longrightarrow> name r' = name r"
  by (auto simp: add_phone_def split: sum.splits if_splits)

lemma edit_phone_name: "edit_phone r a b = Inr (r', c) \<Longrightarrow> name r' = name r"
  by (auto simp: edit_phone_def split: sum.splits prod.splits)

lemma add_birthday_name: "add_birthday r s = Inr r' \<Longrightarrow> name r' = name r"
  by (auto simp: add_birthday_def split: sum.splits)

lemma apply_rec_op_name: "apply_rec_op r opn = Inr r' \<Longrightarrow> name r' = name r"
  by (cases opn)
     (auto simp: add_phone_name remove_phone_def add_birthday_name
           dest: edit_phone_name split: sum.splits prod.splits)

lemma reachable_book_keyed: "reachable_book b \<Longrightarrow> keyed_by_name b"
proof (induction rule: reachable_book.induct)
  case empty
  then show ?case by (simp add: keyed_by_name_def AddressBook_init_def)
next
  case (added b r)
  then show ?case
    using dict_setitem_set [of b "name r" r]
    by (auto simp: keyed_by_name_def add_record_def dict_setitem_distinct)
next
  case (deleted b nm)
  then show ?case
    by (auto simp: keyed_by_name_def delete_def dict_delitem_def distinct_map_filter)
next
  case (stored_mutated b nm r opn r')
  from stored_mutated.hyps have "(nm, r) \<in> set b"
    by (auto simp: find_rec_def dest: dict_get_in split: option.splits)
  with stored_mutated.IH have "name r = nm" by (auto simp: keyed_by_name_def)
  with apply_rec_op_name [OF stored_mutated.hyps(3)] have "name r' = nm" by simp
  with stored_mutated.IH show ?case
    using dict_setitem_set [of b nm r']
    by (auto simp: keyed_by_name_def dict_setitem_distinct)
qed

text \<open>
  C9, as the code has it. In every book reachable through \<open>add_record\<close> and \<open>delete\<close>
  (and through operations on the stored records) no two entries share a key, each
  entry's key is the name of its record, and no operation on a stored record changes its
  name. The name may be any string: nothing checks that it is non-empty.
\<close>

theorem reachable_book_invariant:
  assumes "reachable_book b"
  shows "distinct (map fst b)
    \<and> (\<forall>kv \<in> set b. name (snd kv) = fst kv)
    \<and> (\<forall>kv \<in> set b. \<forall>opn r'. apply_rec_op (snd kv) opn = Inr r' \<longrightarrow> name r' = fst kv)"
  using reachable_book_keyed [OF assms] apply_rec_op_name
  by (auto simp: keyed_by_name_def)

theorem reachable_book_invariant_witness:
  "reachable_book (add_record AddressBook_init (Record_init (str ''Ann'')))
   \<and> add_record AddressBook_init (Record_init (str ''Ann'')) = [(str ''Ann'', Record_init (str ''Ann''))]
   \<and> name (Record_init (str ''Ann'')) = str ''Ann''
   \<and> apply_rec_op (Record_init (str ''Ann'')) (AddPhone (str ''0501234567''))
       = Inr \<lparr>name = str ''Ann'', phones = [str ''0501234567''], birthday = None\<rparr>"
proof -
  have r: "reachable_book (add_record AddressBook_init (Record_init (str ''Ann'')))"
    by (simp add: reachable_book.empty reachable_book.added reachable_record.created)
  have e: "add_record AddressBook_init (Record_init (str ''Ann'')) = [(str ''Ann'', Record_init (str ''Ann''))]"
    by (simp add: add_record_def AddressBook_init_def Record_init_def)
  have a: "apply_rec_op (Record_init (str ''Ann'')) (AddPhone (str ''0501234567''))
       = Inr \<lparr>name = str ''Ann'', phones = [str ''0501234567''], birthday = None\<rparr>"
    by (simp add: Record_init_def add_phone_def Phone_init_def isdigit_def str_def
      unicode_digit_def unicode_decimal_def decimal_value_def)
  from reachable_book_invariant [OF r] e a r show ?thesis
    by (simp add: Record_init_def)
qed

text \<open>
  The claim C9 as the specification words it does not hold: a record with the empty name
  can be created and added.
\<close>

theorem empty_name_counterexample:
  "reachable_book (add_record AddressBook_init (Record_init []))
   \<and> find_rec (add_record AddressBook_init (Record_init [])) [] = Inr (Record_init [])
   \<and> name (Record_init []) = []"
  by (simp add: reachable_book.empty reachable_book.added reachable_record.created)
     (simp add: add_record_def AddressBook_init_def Record_init_def find_rec_def)

section \<open>Evaluation on concrete inputs\<close>

lemma add_days_simps:
  "add_days d (Suc 0) =
     (if year (next_day d) > MAXYEAR then Inl OverflowError else Inr (next_day d))"
  "add_days d 2 =
     (if year (next_day (next_day d)) > MAXYEAR then Inl OverflowError
      else Inr (next_day (next_day d)))"
  by (simp_all add: add_days_def Let_def numeral_2_eq_2)

lemmas upcoming_eval =
  get_upcoming_birthdays_def dict_values_def replace_year_def date_new_def MINYEAR_def
  MAXYEAR_def days_in_month_def is_leap_def date_lt_def days_between_def toordinal_def
  days_before_year_def days_before_month_def weekday_def add_days_simps next_day_def Let_def
  strftime_Ymd_def zpad4_def zpad2_def digit_char_def str_def

lemmas birthday_eval =
  Birthday_init_def strptime_dmY_def re_match_dmY_def re_d_def re_m_def re_Y_def re_dot_def
  re_alt_def re_chars_def in_range_def unicode_decimal_def decimal_value_def py_int_def
  date_new_def MINYEAR_def MAXYEAR_def days_in_month_def is_leap_def str_def

section \<open>Properties of the upcoming-birthdays query\<close>

subsection \<open>Congratulation dates are weekdays\<close>

lemma replace_year_valid: "replace_year b y = Inr p \<Longrightarrow> valid_date p"
  by (auto simp: replace_year_def dest: date_new_valid)

lemma upcoming_loop_step:
  assumes "upcoming_loop today (r # rest) acc = Inr out"
  shows "upcoming_loop today rest acc = Inr out
    \<or> (\<exists>c. valid_date c \<and> weekday c < 5
          \<and> upcoming_loop today rest
               (acc @ [\<lparr>entry_name = name r, congratulation_date = strftime_Ymd c\<rparr>]) = Inr out)"
proof (cases "birthday r")
  case None
  with assms show ?thesis by simp
next
  case (Some bday)
  show ?thesis
  proof (cases "replace_year bday (year today)")
    case (Inl e)
    with Some assms show ?thesis by simp
  next
    case (Inr projected)
    show ?thesis
    proof (cases "if date_lt projected today then replace_year projected (year today + 1)
                  else Inr projected")
      case (Inl e)
      with Some Inr assms show ?thesis by simp
    next
      case bty: (Inr p)
      from bty Inr have vp: "valid_date p"
        by (auto dest: replace_year_valid split: if_splits)
      then have cp: "calendar_day p" by (rule valid_date_calendar_day)
      show ?thesis
      proof (cases "0 \<le> days_between p today \<and> days_between p today \<le> 6")
        case False
        with Some Inr bty assms show ?thesis by (simp add: Let_def)
      next
        case True
        show ?thesis
        proof (cases "if weekday p = 5 then add_days p 2
                      else if weekday p = 6 then add_days p 1 else Inr p")
          case (Inl e)
          with Some Inr bty True assms show ?thesis by (simp add: Let_def)
        next
          case c: (Inr c)
          have "valid_date c \<and> weekday c < 5"
          proof (cases "weekday p = 5")
            case True
            with c add_days_2 [OF cp, of c] show ?thesis by simp
          next
            case n5: False
            show ?thesis
            proof (cases "weekday p = 6")
              case True
              with c n5 add_days_1 [OF cp, of c] show ?thesis by simp
            next
              case False
              with n5 c have "c = p" by simp
              with vp weekday_lt_7 [of p] n5 False show ?thesis by auto
            qed
          qed
          moreover from Some Inr bty True c assms
          have "upcoming_loop today rest
               (acc @ [\<lparr>entry_name = name r, congratulation_date = strftime_Ymd c\<rparr>]) = Inr out"
            by (simp add: Let_def)
          ultimately show ?thesis by blast
        qed
      qed
    qed
  qed
qed

lemma on_weekday_strftime: "valid_date c \<Longrightarrow> weekday c < 5 \<Longrightarrow>
   on_weekday \<lparr>entry_name = n, congratulation_date = strftime_Ymd c\<rparr>"
  by (simp add: on_weekday_def date_of_Ymd_strftime)

lemma upcoming_loop_on_weekday:
  "upcoming_loop today rs acc = Inr out \<Longrightarrow> list_all on_weekday acc \<Longrightarrow> list_all on_weekday out"
proof (induction rs arbitrary: acc)
  case Nil
  then show ?case by simp
next
  case (Cons r rest)
  from upcoming_loop_step [OF Cons.prems(1)] show ?case
  proof (elim disjE exE conjE)
    assume "upcoming_loop today rest acc = Inr out"
    with Cons.IH Cons.prems(2) show ?thesis by blast
  next
    fix c
    assume c: "valid_date c" "weekday c < 5"
      and l: "upcoming_loop today rest
               (acc @ [\<lparr>entry_name = name r, congratulation_date = strftime_Ymd c\<rparr>]) = Inr out"
    from c Cons.prems(2)
    have "list_all on_weekday (acc @ [\<lparr>entry_name = name r, congratulation_date = strftime_Ymd c\<rparr>])"
      by (simp add: on_weekday_strftime)
    with Cons.IH l show ?thesis by blast
  qed
qed

text \<open>
  C10. Whenever the query returns, for any book and any today, every entry of the result
  carries a date string that reads back as a valid date on Monday to Friday: never a
  Saturday or a Sunday.
\<close>

theorem upcoming_on_weekdays:
  "get_upcoming_birthdays book today = Inr out \<Longrightarrow> e \<in> set out \<Longrightarrow> on_weekday e"
  using upcoming_loop_on_weekday [of today "dict_values book" "[]" out]
  by (simp add: get_upcoming_birthdays_def list_all_iff)

theorem upcoming_on_weekdays_witness:
  "get_upcoming_birthdays
     [(str ''Alice'', \<lparr>name = str ''Alice'', phones = [],
         birthday = Some \<lparr>year = 1990, month = 6, day = 15\<rparr>\<rparr>)]
     \<lparr>year = 2024, month = 6, day = 10\<rparr>
     = Inr [\<lparr>entry_name = str ''Alice'', congratulation_date = str ''2024.06.17''\<rparr>]
   \<and> on_weekday \<lparr>entry_name = str ''Alice'', congratulation_date = str ''2024.06.17''\<rparr>
   \<and> weekday \<lparr>year = 2024, month = 6, day = 15\<rparr> = 5
   \<and> weekday \<lparr>year = 2024, month = 6, day = 17\<rparr> = 0"
proof -
  have ev: "get_upcoming_birthdays
     [(str ''Alice'', \<lparr>name = str ''Alice'', phones = [],
         birthday = Some \<lparr>year = 1990, month = 6, day = 15\<rparr>\<rparr>)]
     \<lparr>year = 2024, month = 6, day = 10\<rparr>
     = Inr [\<lparr>entry_name = str ''Alice'', congratulation_date = str ''2024.06.17''\<rparr>]"
    by (simp add: upcoming_eval)
  have w: "weekday \<lparr>year = 2024, month = 6, day = 15\<rparr> = 5
     \<and> weekday \<lparr>year = 2024, month = 6, day = 17\<rparr> = 0"
    by (simp add: upcoming_eval)
  from upcoming_on_weekdays [OF ev] ev w show ?thesis
    by simp
qed

subsection \<open>The query against section 4.5\<close>








subsection \<open>A birthday on 29 February\<close>

text \<open>
  C2 fails on the code. \<open>29.02.2000\<close> is accepted as a birthday. With that birthday in the
  book, the query raises \<open>ValueError\<close> on any day of 2023, which is not a leap year, and
  on 1 March 2024, when the birthday has passed and is projected onto 2025: \<open>replace\<close>
  is given a day that the year does not have, and nothing catches the exception.
\<close>

theorem february_29_raises:
  "Birthday_init (str ''29.02.2000'') = Inr \<lparr>year = 2000, month = 2, day = 29\<rparr>
   \<and> get_upcoming_birthdays
       [(str ''Ann'', \<lparr>name = str ''Ann'', phones = [],
           birthday = Some \<lparr>year = 2000, month = 2, day = 29\<rparr>\<rparr>)]
       \<lparr>year = 2023, month = 2, day = 27\<rparr>
     = Inl (ValueError DayOutOfRange)
   \<and> get_upcoming_birthdays
       [(str ''Ann'', \<lparr>name = str ''Ann'', phones = [],
           birthday = Some \<lparr>year = 2000, month = 2, day = 29\<rparr>\<rparr>)]
       \<lparr>year = 2024, month = 3, day = 1\<rparr>
     = Inl (ValueError DayOutOfRange)"
  by (simp add: upcoming_eval birthday_eval)

section \<open>Properties of Birthday\<close>

subsection \<open>The pattern on a string of the form DD.MM.YYYY\<close>












subsection \<open>Strings of the form DD.MM.YYYY\<close>

lemma ascii_digit_offset: "ascii_digit c \<Longrightarrow> \<exists>a < 10. c = 48 + a"
proof -
  assume "ascii_digit c"
  then have "c - 48 < 10 \<and> c = 48 + (c - 48)" by (auto simp: ascii_digit_def)
  then show ?thesis by blast
qed

lemma length_10:
  "length s = 10 \<Longrightarrow> \<exists>x0 x1 x2 x3 x4 x5 x6 x7 x8 x9. s = [x0, x1, x2, x3, x4, x5, x6, x7, x8, x9]"
  by (auto simp: numeral_eq_Suc length_Suc_conv)




lemma zpad2_digits: "a < 10 \<Longrightarrow> b < 10 \<Longrightarrow> zpad2 (10 * a + b) = [48 + a, 48 + b]"
  by (simp add: zpad2_def digit_char_def)

lemma div_mod_digit:
  fixes h q :: nat
  assumes "h < 10"
  shows "(h + 10 * q) mod 10 = h" "(h + 10 * q) div 10 = q"
  using assms by simp_all

lemma digits_of_4:
  fixes e f g h :: nat
  assumes "e < 10" "f < 10" "g < 10" "h < 10"
  defines "n \<equiv> 1000 * e + 100 * f + 10 * g + h"
  shows "n div 1000 = e" "n div 100 mod 10 = f" "n div 10 mod 10 = g" "n mod 10 = h"
proof -
  define q2 where "q2 = f + 10 * e"
  define q1 where "q1 = g + 10 * q2"
  have n1: "n = h + 10 * q1" by (simp add: n_def q1_def q2_def)
  show "n mod 10 = h" unfolding n1 using assms(4) by (rule div_mod_digit)
  have d1: "n div 10 = q1" unfolding n1 using assms(4) by (rule div_mod_digit)
  show "n div 10 mod 10 = g" unfolding d1 q1_def using assms(3) by (rule div_mod_digit)
  have "n div 100 = n div 10 div 10" by (simp add: div_mult2_eq)
  also have "\<dots> = q2" unfolding d1 q1_def using assms(3) by (rule div_mod_digit)
  finally have d2: "n div 100 = q2" .
  show "n div 100 mod 10 = f" unfolding d2 q2_def using assms(2) by (rule div_mod_digit)
  have "n div 1000 = n div 100 div 10" by (simp add: div_mult2_eq)
  also have "\<dots> = e" unfolding d2 q2_def using assms(2) by (rule div_mod_digit)
  finally show "n div 1000 = e" .
qed

lemma zpad4_digits:
  assumes "e < 10" "f < 10" "g < 10" "h < 10"
  shows "zpad4 (1000 * e + 100 * f + 10 * g + h) = [48 + e, 48 + f, 48 + g, 48 + h]"
proof -
  have m: "e mod 10 = e" using assms(1) by simp
  show ?thesis
    unfolding zpad4_def digit_char_def digits_of_4 [OF assms] m ..
qed










section \<open>The specified result is unique\<close>

text \<open>
  A date string of the form \<open>YYYY.MM.DD\<close> is the formatting of the date it reads back
  as, so the entry that section 4.5 asks for a record is determined, and with it the
  result list that the query returns.
\<close>

lemma ascii_number_digits2: "ascii_number [48 + a, 48 + b] = 10 * a + b"
  by (simp add: ascii_number_def)

lemma ascii_number_digits4:
  "ascii_number [48 + e, 48 + f, 48 + g, 48 + h] = 1000 * e + 100 * f + 10 * g + h"
  by (simp add: ascii_number_def)

lemma date_of_Ymd_Some:
  assumes "date_of_Ymd s = Some c"
  shows "strftime_Ymd c = s"
proof -
  from assms have len: "length s = 10"
    by (simp add: date_of_Ymd_def split: if_splits)
  from length_10 [OF this] obtain x0 x1 x2 x3 x4 x5 x6 x7 x8 x9
    where s: "s = [x0, x1, x2, x3, x4, x5, x6, x7, x8, x9]" by blast
  from assms have p: "x4 = 46" "x7 = 46"
    and dg: "ascii_digit x0" "ascii_digit x1" "ascii_digit x2" "ascii_digit x3"
      "ascii_digit x5" "ascii_digit x6" "ascii_digit x8" "ascii_digit x9"
    by (simp_all add: date_of_Ymd_def s split: if_splits)
  from ascii_digit_offset [OF dg(1)] obtain e where e: "e < 10" "x0 = 48 + e" by blast
  from ascii_digit_offset [OF dg(2)] obtain f where f: "f < 10" "x1 = 48 + f" by blast
  from ascii_digit_offset [OF dg(3)] obtain g where g: "g < 10" "x2 = 48 + g" by blast
  from ascii_digit_offset [OF dg(4)] obtain h where h: "h < 10" "x3 = 48 + h" by blast
  from ascii_digit_offset [OF dg(5)] obtain c1 where c1: "c1 < 10" "x5 = 48 + c1" by blast
  from ascii_digit_offset [OF dg(6)] obtain d1 where d1: "d1 < 10" "x6 = 48 + d1" by blast
  from ascii_digit_offset [OF dg(7)] obtain a where a: "a < 10" "x8 = 48 + a" by blast
  from ascii_digit_offset [OF dg(8)] obtain b where b: "b < 10" "x9 = 48 + b" by blast
  have s': "s = [48 + e, 48 + f, 48 + g, 48 + h, 46, 48 + c1, 48 + d1, 46, 48 + a, 48 + b]"
    unfolding s e(2) f(2) g(2) h(2) c1(2) d1(2) a(2) b(2) p ..
  have t: "take 4 s = [48 + e, 48 + f, 48 + g, 48 + h]" "take 2 (drop 5 s) = [48 + c1, 48 + d1]"
    "drop 8 s = [48 + a, 48 + b]"
    by (simp_all add: s')
  from assms have "c = \<lparr>year = ascii_number (take 4 s), month = ascii_number (take 2 (drop 5 s)),
      day = ascii_number (drop 8 s)\<rparr>"
    by (simp add: date_of_Ymd_def split: if_splits)
  then have c: "c = \<lparr>year = 1000 * e + 100 * f + 10 * g + h, month = 10 * c1 + d1, day = 10 * a + b\<rparr>"
    unfolding t ascii_number_digits2 ascii_number_digits4 .
  show ?thesis
    unfolding c strftime_Ymd_def
    using zpad4_digits [OF e(1) f(1) g(1) h(1)] zpad2_digits [OF c1(1) d1(1)]
      zpad2_digits [OF a(1) b(1)]
    by (simp add: s')
qed

lemma spec_entry_unique:
  assumes "spec_entry today r e" and "spec_entry today r e'"
  shows "e = e'"
proof -
  from assms(1) obtain b c where b: "birthday r = Some b" and n: "entry_name e = name r"
    and c: "date_of_Ymd (congratulation_date e) = Some c" "valid_date c"
      "toordinal c = toordinal (spec_projected today b) + spec_shift (spec_projected today b)"
    by (auto simp: spec_entry_def split: option.splits)
  from assms(2) b obtain c' where n': "entry_name e' = name r"
    and c': "date_of_Ymd (congratulation_date e') = Some c'" "valid_date c'"
      "toordinal c' = toordinal (spec_projected today b) + spec_shift (spec_projected today b)"
    by (auto simp: spec_entry_def split: option.splits)
  from c(2,3) c'(2,3) have "c = c'"
    by (intro toordinal_inj valid_date_calendar_day) simp_all
  with date_of_Ymd_Some [OF c(1)] date_of_Ymd_Some [OF c'(1)]
  have "congratulation_date e = congratulation_date e'" by simp
  with n n' show ?thesis by (cases e; cases e') simp
qed

lemma spec_entries_unique:
  "list_all2 (spec_entry today) rs out \<Longrightarrow> list_all2 (spec_entry today) rs out' \<Longrightarrow> out = out'"
proof (induction rs arbitrary: out out')
  case Nil
  then show ?case by simp
next
  case (Cons r rs)
  then show ?case
    by (auto simp: list_all2_Cons1 dest: spec_entry_unique)
qed

end
